theory Spec2Isabelle
  imports
    Main
    "HOL-Library.Char_ord"
    "HOL-Library.List_Lexorder"
    "HOL-Library.Multiset"
    "HOL-Library.AList"
begin

section \<open>Go library functions used by \<^verbatim>\<open>pkg/kwokctl/runtime/util.go\<close>\<close>

text \<open>
  A Go string is a sequence of bytes, here a \<^typ>\<open>string\<close> (a list of 8-bit characters).
  Go compares strings bytewise and lexicographically, a proper prefix being the smaller
  string; this is the order of \<open>Char_ord\<close> lifted to lists by \<open>List_Lexorder\<close>, so
  \<open>sort.Strings\<close> is \<^term>\<open>sort\<close> on \<^typ>\<open>string list\<close>.
\<close>

definition strings_HasPrefix :: "string \<Rightarrow> string \<Rightarrow> bool" where
  \<comment> \<open>\<^verbatim>\<open>len(s) >= len(prefix) && s[:len(prefix)] == prefix\<close>\<close>
  "strings_HasPrefix s pre \<longleftrightarrow> length pre \<le> length s \<and> take (length pre) s = pre"

fun strings_Contains :: "string \<Rightarrow> string \<Rightarrow> bool" where
  \<comment> \<open>\<^verbatim>\<open>strings.Index(s, substr) >= 0\<close>: some suffix of \<open>s\<close> starts with \<open>substr\<close>\<close>
  "strings_Contains [] sub = (sub = [])"
| "strings_Contains (c # t) sub = (strings_HasPrefix (c # t) sub \<or> strings_Contains t sub)"

text \<open>
  \<^verbatim>\<open>strings.Split(s, sep)\<close> cuts \<open>s\<close> at every occurrence of \<open>sep\<close>, found from left to
  right without overlap; \<open>cur\<close> is the piece being read. With an empty separator Go
  returns the characters of \<open>s\<close> one by one (the source never does that: its separator
  is \<^verbatim>\<open>"="\<close>).
\<close>

function split_from :: "string \<Rightarrow> string \<Rightarrow> string \<Rightarrow> string list" where
  "split_from sep cur [] = [cur]"
| "split_from sep cur (c # t) =
     (if strings_HasPrefix (c # t) sep \<and> sep \<noteq> []
      then cur # split_from sep [] (drop (length sep) (c # t))
      else split_from sep (cur @ [c]) t)"
  by pat_completeness auto
termination
  by (relation "measure (\<lambda>(sep, cur, s). length s)") auto

definition strings_Split :: "string \<Rightarrow> string \<Rightarrow> string list" where
  "strings_Split s sep = (if sep = [] then map (\<lambda>c. [c]) s else split_from sep [] s)"

text \<open>
  \<^verbatim>\<open>strings.ReplaceAll(s, old, new)\<close> replaces every occurrence of \<open>old\<close>, found from
  left to right without overlap. With an empty \<open>old\<close> Go inserts \<open>new\<close> before every
  character and at the end (the source never does that either).
\<close>

function strings_ReplaceAll :: "string \<Rightarrow> string \<Rightarrow> string \<Rightarrow> string" where
  "strings_ReplaceAll [] old new = (if old = [] then new else [])"
| "strings_ReplaceAll (c # t) old new =
     (if old = [] then new @ c # strings_ReplaceAll t old new
      else if strings_HasPrefix (c # t) old
      then new @ strings_ReplaceAll (drop (length old) (c # t)) old new
      else c # strings_ReplaceAll t old new)"
  by pat_completeness auto
termination
  by (relation "measure (\<lambda>(s, old, new). length s)") auto

section \<open>Data model (package \<^verbatim>\<open>internalversion\<close>)\<close>

text \<open>
  The records carry the fields that \<^verbatim>\<open>util.go\<close> reads or writes. Records are extensible:
  every function below is stated on the record scheme, whose \<open>more\<close> part stands for all
  the other fields of the Go struct (links, image, command, ports, ...). The package is
  not among the sources read here; of the path types, \<^verbatim>\<open>util.go\<close> names only
  \<^verbatim>\<open>HostPathDirectoryOrCreate\<close>.
\<close>

datatype HostPathType = HostPathUnset | HostPathDirectoryOrCreate | HostPathDirectory
  | HostPathFileOrCreate | HostPathFile | HostPathSocket | HostPathCharDev | HostPathBlockDev

record Volume =
  Name :: string
  ReadOnly :: bool
  HostPath :: string
  MountPath :: string
  PathType :: HostPathType

record Env =
  EnvName :: string
  EnvValue :: string

record Component =
  CName :: string
  Args :: "string list"
  Envs :: "Env list"
  Volumes :: "Volume list"

record ExtraArgs =
  Key :: string
  Value :: string
  Override :: bool

record ComponentPatches =
  PName :: string
  ExtraVolumes :: "Volume list"
  ExtraEnvs :: "Env list"
  ExtraArgs :: "ExtraArgs list"

section \<open>The argument tokenizer\<close>

text \<open>
  Indexing a Go slice out of range panics. \<^verbatim>\<open>getKeyValueFromArg\<close> reads \<^verbatim>\<open>strstmp[0]\<close>,
  so the model returns a sum: \<open>Inl\<close> is the panic, \<open>Inr\<close> the pair the function returns.
\<close>

datatype panic = IndexOutOfRange

definition getKeyValueFromArg :: "string \<Rightarrow> panic + string \<times> string" where
  "getKeyValueFromArg arg =
     (if \<not> strings_Contains arg ''='' then Inr ('''', '''')
      else if \<not> strings_HasPrefix arg ''--'' then Inr ('''', '''')
      else (case strings_Split arg ''='' of
              [] \<Rightarrow> Inl IndexOutOfRange
            | s0 # _ \<Rightarrow>
                Inr (strings_ReplaceAll s0 ''--'' '''', strings_ReplaceAll arg (s0 @ ''='') '''')))"

section \<open>The argument patch merge\<close>

text \<open>
  \<^verbatim>\<open>argsmap\<close> is a Go \<^verbatim>\<open>map[string][]string\<close>: an association list with one entry per
  key. \<^term>\<open>map_of\<close> is the lookup and \<^term>\<open>AList.update\<close> the assignment
  \<^verbatim>\<open>argsmap[k] = values\<close>. Go iterates over a map in an unspecified order; the model
  iterates in the order of the list, and \<open>rebuilt_order_irrelevant\<close> below shows that the
  sort at the end makes the result the same for every order.
\<close>

type_synonym argsmap = "(string \<times> string list) list"

definition values_of :: "argsmap \<Rightarrow> string \<Rightarrow> string list" where
  \<comment> \<open>\<^verbatim>\<open>values := []string{}; if _, ok := argsmap[k]; ok { values = argsmap[k] }\<close>\<close>
  "values_of m k = (case map_of m k of None \<Rightarrow> [] | Some vs \<Rightarrow> vs)"

fun parse_args :: "argsmap \<Rightarrow> string list \<Rightarrow> panic + argsmap" where
  \<comment> \<open>the first loop, over \<^verbatim>\<open>component.Args\<close>\<close>
  "parse_args m [] = Inr m"
| "parse_args m (arg # args) =
     (case getKeyValueFromArg arg of
        Inl e \<Rightarrow> Inl e
      | Inr (k, v) \<Rightarrow>
          if k = '''' \<or> v = '''' then parse_args m args
          else parse_args (AList.update k (values_of m k @ [v]) m) args)"

definition apply_extra_arg :: "ExtraArgs \<Rightarrow> argsmap \<Rightarrow> argsmap" where
  \<comment> \<open>one round of the second loop, over \<^verbatim>\<open>patch.ExtraArgs\<close>\<close>
  "apply_extra_arg a m =
     (let existOldArg = (map_of m (Key a) \<noteq> None);
          values = values_of m (Key a);
          values = (if existOldArg \<and> Override a then [] else values)
      in AList.update (Key a) (values @ [Value a]) m)"

definition apply_extra_args :: "ExtraArgs list \<Rightarrow> argsmap \<Rightarrow> argsmap" where
  "apply_extra_args as m = fold apply_extra_arg as m"

definition format_arg :: "string \<Rightarrow> string \<Rightarrow> string" where
  \<comment> \<open>\<^verbatim>\<open>fmt.Sprintf("--%s=%s", k, v1)\<close>\<close>
  "format_arg k v = ''--'' @ k @ ''='' @ v"

definition rebuild_args :: "argsmap \<Rightarrow> string list" where
  \<comment> \<open>the third loop: one token for every value of every key\<close>
  "rebuild_args m = concat (map (\<lambda>(k, vs). map (format_arg k) vs) m)"

definition applyComponentPatchArgs ::
  "'a Component_scheme \<Rightarrow> 'b ComponentPatches_scheme \<Rightarrow> panic + 'a Component_scheme" where
  "applyComponentPatchArgs component patch =
     (if PName patch \<noteq> CName component then Inr component
      else (case parse_args [] (Args component) of
              Inl e \<Rightarrow> Inl e
            | Inr argsmap \<Rightarrow>
                Inr (component\<lparr>Args :=
                  sort (rebuild_args (apply_extra_args (ExtraArgs patch) argsmap))\<rparr>)))"

definition applyComponentPatch ::
  "'a Component_scheme \<Rightarrow> 'b ComponentPatches_scheme \<Rightarrow> panic + 'a Component_scheme" where
  "applyComponentPatch component patch =
     (if PName patch \<noteq> CName component then Inr component
      else applyComponentPatchArgs
             (component\<lparr>Volumes := Volumes component @ ExtraVolumes patch,
                        Envs := Envs component @ ExtraEnvs patch\<rparr>) patch)"

fun ApplyComponentPatches ::
  "'a Component_scheme \<Rightarrow> 'b ComponentPatches_scheme list \<Rightarrow> panic + 'a Component_scheme" where
  "ApplyComponentPatches component [] = Inr component"
| "ApplyComponentPatches component (patch # patches) =
     (case applyComponentPatch component patch of
        Inl e \<Rightarrow> Inl e
      | Inr component' \<Rightarrow> ApplyComponentPatches component' patches)"

section \<open>Auxiliary definitions for the statements\<close>

text \<open>
  \<open>kv_of\<close> is the pair that \<^verbatim>\<open>getKeyValueFromArg\<close> returns (it never panics, see
  \<open>getKeyValueFromArg_total\<close>), \<open>add_arg\<close> one round of the first loop, and a token is
  \<open>malformed\<close> when it lacks the two-dash prefix or the equals sign.
\<close>

definition kv_of :: "string \<Rightarrow> string \<times> string" where
  "kv_of arg = (case getKeyValueFromArg arg of Inl e \<Rightarrow> ('''', '''') | Inr kv \<Rightarrow> kv)"

definition add_arg :: "string \<Rightarrow> argsmap \<Rightarrow> argsmap" where
  "add_arg arg m = (case kv_of arg of (k, v) \<Rightarrow>
     if k = '''' \<or> v = '''' then m else AList.update k (values_of m k @ [v]) m)"

definition malformed :: "string \<Rightarrow> bool" where
  "malformed arg \<longleftrightarrow> \<not> strings_HasPrefix arg ''--'' \<or> \<not> strings_Contains arg ''=''"

text \<open>The fixtures of \<^verbatim>\<open>TestApplyComponentPatch\<close> in \<^verbatim>\<open>util_test.go\<close>.\<close>

definition newDefault :: Component where
  "newDefault = \<lparr>CName = ''test'',
     Args = [''--etcd-servers=http://localhost:2379'', ''--etcd-prefix=/registry''],
     Envs = [], Volumes = []\<rparr>"

definition test_patch :: "string \<Rightarrow> string \<Rightarrow> bool \<Rightarrow> ComponentPatches" where
  "test_patch k v ov = \<lparr>PName = ''test'', ExtraVolumes = [], ExtraEnvs = [],
     ExtraArgs = [\<lparr>Key = k, Value = v, Override = ov\<rparr>]\<rparr>"

text \<open>
  A token that the first loop skips: the key or the value that the tokenizer returns for
  it is empty.
\<close>

definition empty_key_or_value :: "string \<Rightarrow> bool" where
  "empty_key_or_value arg =
     (case getKeyValueFromArg arg of Inl e \<Rightarrow> False | Inr (k, v) \<Rightarrow> k = '''' \<or> v = '''')"

section \<open>Log volumes\<close>

text \<open>
  The resources that \<^verbatim>\<open>GetLogVolumes\<close> reads, with the fields it uses: a \<^verbatim>\<open>Logs\<close> or
  \<^verbatim>\<open>ClusterLogs\<close> object holds \<^verbatim>\<open>Spec.Logs\<close>, an \<^verbatim>\<open>Attach\<close> or \<^verbatim>\<open>ClusterAttach\<close>
  object holds \<^verbatim>\<open>Spec.Attaches\<close>, and every entry has a \<^verbatim>\<open>LogsFile\<close>.
\<close>

record Log =
  LogsFile :: string

record AttachConfig =
  AttachLogsFile :: string

record Logs =
  LogsSpecLogs :: "Log list"

record ClusterLogs =
  ClusterLogsSpecLogs :: "Log list"

record Attach =
  AttachSpecAttaches :: "AttachConfig list"

record ClusterAttach =
  ClusterAttachSpecAttaches :: "AttachConfig list"

text \<open>
  \<^verbatim>\<open>fmt.Sprintf("%d", i)\<close> for an index \<open>i \<ge> 0\<close>: the decimal digits of \<open>i\<close>;
  \<open>undecimal\<close> reads them back and is used to show that different indices give
  different names.
\<close>

definition digit :: "nat \<Rightarrow> char" where
  "digit d = char_of (48 + d)"

function decimal :: "nat \<Rightarrow> string" where
  "decimal n = (if n < 10 then [digit n] else decimal (n div 10) @ [digit (n mod 10)])"
  by pat_completeness auto
termination
  by (relation "measure id") auto

declare decimal.simps [simp del]

definition undecimal :: "string \<Rightarrow> nat" where
  "undecimal s = foldl (\<lambda>a c. 10 * a + (of_char c - 48)) 0 s"

text \<open>
  \<^verbatim>\<open>GetLogVolumes\<close> takes from its context the four lists of resources (the results of
  \<^verbatim>\<open>config.FilterWithTypeFromContext\<close>), here arguments, as is \<^verbatim>\<open>path.Dir\<close>, which is not
  part of \<^verbatim>\<open>util.go\<close>. \<^verbatim>\<open>mountDirs\<close> is a Go map used as a set: a list without
  duplicates, \<^term>\<open>List.insert\<close> being the assignment \<^verbatim>\<open>mountDirs[dir] = struct{}{}\<close>.
  \<^verbatim>\<open>maps.Keys\<close> returns the keys in an unspecified order, which the sort erases.
\<close>

definition GetLogVolumes ::
  "(string \<Rightarrow> string) \<Rightarrow> 'a Logs_scheme list \<Rightarrow> 'b ClusterLogs_scheme list \<Rightarrow>
   'c Attach_scheme list \<Rightarrow> 'd ClusterAttach_scheme list \<Rightarrow> Volume list" where
  "GetLogVolumes Dir logs clusterLogs attaches clusterAttaches =
     (let mountDirs = [];
          mountDirs = fold (\<lambda>log. fold (\<lambda>l. List.insert (Dir (LogsFile l))) (LogsSpecLogs log))
                        logs mountDirs;
          mountDirs = fold (\<lambda>cl. fold (\<lambda>l. List.insert (Dir (LogsFile l))) (ClusterLogsSpecLogs cl))
                        clusterLogs mountDirs;
          mountDirs = fold (\<lambda>attach. fold (\<lambda>a. List.insert (Dir (AttachLogsFile a)))
                                        (AttachSpecAttaches attach))
                        attaches mountDirs;
          mountDirs = fold (\<lambda>ca. fold (\<lambda>a. List.insert (Dir (AttachLogsFile a)))
                                    (ClusterAttachSpecAttaches ca))
                        clusterAttaches mountDirs;
          logsDirs = sort mountDirs
      in map (\<lambda>(i, logsDir).
                \<lparr>Name = ''log-volume-'' @ decimal i, ReadOnly = True, HostPath = logsDir,
                 MountPath = logsDir, PathType = HostPathDirectoryOrCreate\<rparr>)
             (enumerate 0 logsDirs))"

text \<open>All the log file paths of the four lists of resources.\<close>

definition log_files ::
  "'a Logs_scheme list \<Rightarrow> 'b ClusterLogs_scheme list \<Rightarrow>
   'c Attach_scheme list \<Rightarrow> 'd ClusterAttach_scheme list \<Rightarrow> string list" where
  "log_files logs clusterLogs attaches clusterAttaches =
     concat (map (\<lambda>log. map LogsFile (LogsSpecLogs log)) logs) @
     concat (map (\<lambda>cl. map LogsFile (ClusterLogsSpecLogs cl)) clusterLogs) @
     concat (map (\<lambda>attach. map AttachLogsFile (AttachSpecAttaches attach)) attaches) @
     concat (map (\<lambda>ca. map AttachLogsFile (ClusterAttachSpecAttaches ca)) clusterAttaches)"

section \<open>The executor \<^verbatim>\<open>ForeachComponents\<close>\<close>

text \<open>
  The action \<^verbatim>\<open>fun(ctx, component) error\<close> is a closure with effects: what it returns for a
  component may depend on what it did before. In the model the action receives the list
  of the components it was started on so far and the component, and returns \<open>None\<close> for
  \<^verbatim>\<open>nil\<close> or \<open>Some err\<close>; it is assumed to return. A run of the executor yields the list
  of the components the action was started on, in the order of the calls, and the error
  that \<^verbatim>\<open>ForeachComponents\<close> returns. \<open>outcomes f h cs\<close> are the results of starting the
  action on the components \<open>cs\<close> one after the other, after the history \<open>h\<close>.
\<close>

type_synonym ('c, 'e) action = "'c list \<Rightarrow> 'c \<Rightarrow> 'e option"

definition outcomes :: "('c, 'e) action \<Rightarrow> 'c list \<Rightarrow> 'c list \<Rightarrow> 'e option list" where
  "outcomes f h cs = map (\<lambda>j. f (h @ take j cs) (cs ! j)) [0..<length cs]"

text \<open>The dry-run loops: the inner loop over one group, the outer loop over the groups.\<close>

fun dry_group :: "('c, 'e) action \<Rightarrow> 'c list \<Rightarrow> 'c list \<Rightarrow> 'c list \<times> 'e option" where
  "dry_group f h [] = (h, None)"
| "dry_group f h (component # grp) =
     (case f h component of
        Some err \<Rightarrow> (h @ [component], Some err)
      | None \<Rightarrow> dry_group f (h @ [component]) grp)"

fun dry_groups :: "('c, 'e) action \<Rightarrow> 'c list \<Rightarrow> 'c list list \<Rightarrow> 'c list \<times> 'e option" where
  "dry_groups f h [] = (h, None)"
| "dry_groups f h (grp # groups) =
     (case dry_group f h grp of
        (h', Some err) \<Rightarrow> (h', Some err)
      | (h', None) \<Rightarrow> dry_groups f h' groups)"

text \<open>
  Modelled from the spec: \<^verbatim>\<open>errgroup\<close> (\<^verbatim>\<open>golang.org/x/sync/errgroup\<close>) is not among the
  sources. The spec, section 4.1, says that all members of a batch are invoked
  concurrently, that the call blocks until all members finish, and that the error returned
  is the first one observed, by completion and not by declaration order.
  \<open>errgroup_Go\<close> starts the action on every member, in the order of the \<^verbatim>\<open>g.Go\<close> calls.
  \<open>sched h cs\<close> is the order in which the members of the batch \<open>cs\<close>, started after the
  history \<open>h\<close>, return: a list of positions in \<open>cs\<close>, chosen by the scheduler and here a
  parameter. \<open>errgroup_Wait\<close> returns the first error in that order, \<open>None\<close> when there
  is none.
\<close>

fun first_error :: "'e option list \<Rightarrow> 'e option" where
  "first_error [] = None"
| "first_error (None # rs) = first_error rs"
| "first_error (Some err # rs) = Some err"

definition errgroup_Wait :: "'e option list \<Rightarrow> nat list \<Rightarrow> 'e option" where
  "errgroup_Wait rs finished =
     first_error (map (\<lambda>j. rs ! j) (filter (\<lambda>j. j < length rs) finished))"

definition errgroup_Go ::
  "('c, 'e) action \<Rightarrow> ('c list \<Rightarrow> 'c list \<Rightarrow> nat list) \<Rightarrow> 'c list \<Rightarrow> 'c list \<Rightarrow>
   'c list \<times> 'e option" where
  "errgroup_Go f sched h cs = (h @ cs, errgroup_Wait (outcomes f h cs) (sched h cs))"

text \<open>
  The ordered mode: a group of exactly one component is run inline, any other group
  under an \<^verbatim>\<open>errgroup\<close>; the first group that returns an error ends the loop.
\<close>

fun ordered_groups ::
  "('c, 'e) action \<Rightarrow> ('c list \<Rightarrow> 'c list \<Rightarrow> nat list) \<Rightarrow> 'c list \<Rightarrow> 'c list list \<Rightarrow>
   'c list \<times> 'e option" where
  "ordered_groups f sched h [] = (h, None)"
| "ordered_groups f sched h (grp # groups) =
     (case grp of
        [component] \<Rightarrow>
          (case f h component of
             Some err \<Rightarrow> (h @ [component], Some err)
           | None \<Rightarrow> ordered_groups f sched (h @ [component]) groups)
      | _ \<Rightarrow>
          (case errgroup_Go f sched h grp of
             (h', Some err) \<Rightarrow> (h', Some err)
           | (h', None) \<Rightarrow> ordered_groups f sched h' groups))"

text \<open>
  \<^verbatim>\<open>c.Config(ctx)\<close>, \<^verbatim>\<open>components.GroupByLinks\<close> and \<^verbatim>\<open>c.IsDryRun()\<close> are not part of
  \<^verbatim>\<open>util.go\<close>: the result of the first (an error or the configured components), the second
  and the value of the third are arguments. \<^verbatim>\<open>slices.Reverse\<close> is \<^term>\<open>rev\<close>.
\<close>

definition ForeachComponents ::
  "'e + 'c list \<Rightarrow> ('c list \<Rightarrow> 'e + 'c list list) \<Rightarrow> bool \<Rightarrow> bool \<Rightarrow> bool \<Rightarrow>
   ('c, 'e) action \<Rightarrow> ('c list \<Rightarrow> 'c list \<Rightarrow> nat list) \<Rightarrow> 'c list \<times> 'e option" where
  "ForeachComponents config GroupByLinks IsDryRun reverse order f sched =
     (case config of
        Inl err \<Rightarrow> ([], Some err)
      | Inr components \<Rightarrow>
          (case GroupByLinks components of
             Inl err \<Rightarrow> ([], Some err)
           | Inr groups \<Rightarrow>
               (let groups = (if reverse then rev groups else groups)
                in if IsDryRun then dry_groups f [] groups
                   else if order then ordered_groups f sched [] groups
                   else errgroup_Go f sched [] (concat groups))))"


text \<open>
  \<open>group_error\<close> is the error with which the ordered mode leaves a group, if any. The
  other definitions are example inputs: an action that fails on one component, one that
  never fails, the groups \<^verbatim>\<open>[A]\<close>, \<^verbatim>\<open>[B, C]\<close> of the spec, and a scheduler under which the
  members of a batch return in the order they were started.
\<close>

definition fails_on :: "string \<Rightarrow> (string, string) action" where
  "fails_on x h c = (if c = x then Some ''failed'' else None)"

definition never_fails :: "(string, string) action" where
  "never_fails h c = None"

definition two_groups :: "string list list" where
  "two_groups = [[''A''], [''B'', ''C'']]"

definition in_launch_order :: "string list \<Rightarrow> string list \<Rightarrow> nat list" where
  "in_launch_order h cs = [0..<length cs]"

section \<open>The tokenizer and the first loop never panic\<close>

lemma split_from_not_Nil: "split_from sep cur s \<noteq> []"
  by (induction sep cur s rule: split_from.induct) auto

lemma strings_Split_not_Nil: "sep \<noteq> [] \<Longrightarrow> strings_Split s sep \<noteq> []"
  by (simp add: strings_Split_def split_from_not_Nil)

lemma getKeyValueFromArg_total: "getKeyValueFromArg arg = Inr (kv_of arg)"
proof -
  have "strings_Split arg ''='' \<noteq> []" by (rule strings_Split_not_Nil) simp
  then obtain s0 rest where "strings_Split arg ''='' = s0 # rest"
    by (cases "strings_Split arg ''=''") auto
  then show ?thesis
    by (simp add: kv_of_def getKeyValueFromArg_def)
qed

lemma parse_args_fold: "parse_args m args = Inr (fold add_arg args m)"
  by (induction args arbitrary: m)
     (auto simp: add_arg_def getKeyValueFromArg_total split: prod.splits)

lemma strings_Contains_char: "strings_Contains s [c] \<longleftrightarrow> c \<in> set s"
  by (induction s) (auto simp: strings_HasPrefix_def)

lemma split_from_hd: "hd (split_from [c] cur s) = cur @ takeWhile (\<lambda>x. x \<noteq> c) s"
  by (induction "[c]" cur s rule: split_from.induct) (auto simp: strings_HasPrefix_def)

lemma kv_of_malformed: "malformed arg \<Longrightarrow> kv_of arg = ('''', '''')"
  by (auto simp: malformed_def kv_of_def getKeyValueFromArg_def)

lemma add_arg_malformed: "malformed arg \<Longrightarrow> add_arg arg m = m"
  by (simp add: add_arg_def kv_of_malformed)

lemma mset_rebuild_update:
  "mset (rebuild_args (AList.update k (values_of m k @ [v]) m)) =
   mset (rebuild_args m) + {#format_arg k v#}"
  by (induction m) (auto simp: rebuild_args_def values_of_def)

lemma mset_rebuild_delete:
  "distinct (map fst m) \<Longrightarrow> map_of m k = Some vs \<Longrightarrow>
   mset (rebuild_args m) = mset (map (format_arg k) vs) + mset (rebuild_args (AList.delete k m))"
proof (induction m)
  case Nil
  then show ?case by simp
next
  case (Cons e m)
  obtain k' vs' where e: "e = (k', vs')" by (cases e)
  show ?case
  proof (cases "k' = k")
    case True
    with Cons.prems e have "k \<notin> fst ` set m" and "vs' = vs" by auto
    with True e show ?thesis by (simp add: rebuild_args_def)
  next
    case False
    with Cons e show ?thesis by (simp add: rebuild_args_def)
  qed
qed

lemma mset_rebuild_update_any:
  "distinct (map fst m) \<Longrightarrow>
   mset (rebuild_args (AList.update k vs m)) =
   mset (map (format_arg k) vs) + mset (rebuild_args (AList.delete k m))"
proof -
  assume d: "distinct (map fst m)"
  have "mset (rebuild_args (AList.update k vs m)) =
        mset (map (format_arg k) vs) + mset (rebuild_args (AList.delete k (AList.update k vs m)))"
    by (rule mset_rebuild_delete) (simp_all add: d distinct_update update_conv')
  then show ?thesis by (simp add: delete_update_same)
qed

lemma distinct_add_arg: "distinct (map fst m) \<Longrightarrow> distinct (map fst (add_arg arg m))"
  by (simp add: add_arg_def distinct_update split: prod.splits)

lemma distinct_fold_add_arg: "distinct (map fst m) \<Longrightarrow> distinct (map fst (fold add_arg args m))"
  by (induction args arbitrary: m) (simp_all add: distinct_add_arg)

lemma distinct_apply_extra_arg: "distinct (map fst m) \<Longrightarrow> distinct (map fst (apply_extra_arg a m))"
  by (simp add: apply_extra_arg_def Let_def distinct_update)

lemma distinct_apply_extra_args: "distinct (map fst m) \<Longrightarrow> distinct (map fst (apply_extra_args as m))"
  unfolding apply_extra_args_def
  by (induction as arbitrary: m) (simp_all add: distinct_apply_extra_arg)

lemma map_of_apply_extra_arg_other:
  "k \<noteq> Key a \<Longrightarrow> map_of (apply_extra_arg a m) k = map_of m k"
  by (simp add: apply_extra_arg_def Let_def update_conv')

lemma map_of_apply_extra_args_other:
  "\<forall>b\<in>set as. Key b \<noteq> k \<Longrightarrow> map_of (apply_extra_args as m) k = map_of m k"
  unfolding apply_extra_args_def
  by (induction as arbitrary: m) (auto simp: map_of_apply_extra_arg_other)

lemma apply_extra_args_append:
  "apply_extra_args (xs @ ys) m = apply_extra_args ys (apply_extra_args xs m)"
  by (simp add: apply_extra_args_def)

lemma apply_extra_args_Cons:
  "apply_extra_args (a # ys) m = apply_extra_args ys (apply_extra_arg a m)"
  by (simp add: apply_extra_args_def)

lemma applyComponentPatchArgs_match:
  "PName p = CName c \<Longrightarrow>
   applyComponentPatchArgs c p =
   Inr (c\<lparr>Args := sort (rebuild_args (apply_extra_args (ExtraArgs p) (fold add_arg (Args c) [])))\<rparr>)"
  by (simp add: applyComponentPatchArgs_def parse_args_fold)

lemma applyComponentPatch_match:
  "PName p = CName c \<Longrightarrow>
   applyComponentPatch c p =
   Inr (c\<lparr>Volumes := Volumes c @ ExtraVolumes p, Envs := Envs c @ ExtraEnvs p,
          Args := sort (rebuild_args (apply_extra_args (ExtraArgs p) (fold add_arg (Args c) [])))\<rparr>)"
  by (simp add: applyComponentPatch_def applyComponentPatchArgs_match)


lemma append_step:
  "\<not> (map_of m (Key a) \<noteq> None \<and> Override a) \<Longrightarrow>
   map_of (apply_extra_arg a m) = (map_of m)(Key a \<mapsto> values_of m (Key a) @ [Value a])"
  by (auto simp add: apply_extra_arg_def Let_def update_conv' values_of_def)

section \<open>The cases of \<^verbatim>\<open>TestApplyComponentPatch\<close>\<close>

text \<open>
  The two cases of the test in \<^verbatim>\<open>util_test.go\<close>: one \<^verbatim>\<open>etcd-servers\<close> token with the new
  value, and two \<^verbatim>\<open>etcd-prefix\<close> tokens.
\<close>

lemma TestApplyComponentPatch_override:
  "applyComponentPatch newDefault (test_patch ''etcd-servers'' ''http://192.168.66.2:3379'' True) =
   Inr (newDefault\<lparr>Args :=
     [''--etcd-prefix=/registry'', ''--etcd-servers=http://192.168.66.2:3379'']\<rparr>)"
  unfolding newDefault_def test_patch_def by code_simp

lemma TestApplyComponentPatch_no_override:
  "applyComponentPatch newDefault (test_patch ''etcd-prefix'' ''/test'' False) =
   Inr (newDefault\<lparr>Args :=
     [''--etcd-prefix=/registry'', ''--etcd-prefix=/test'',
      ''--etcd-servers=http://localhost:2379'']\<rparr>)"
  unfolding newDefault_def test_patch_def by code_simp

section \<open>Override\<close>



lemma values_of_apply_extra_arg_same:
  "\<not> (map_of m (Key a) \<noteq> None \<and> Override a) \<Longrightarrow>
   values_of (apply_extra_arg a m) (Key a) = values_of m (Key a) @ [Value a]"
  by (simp add: append_step values_of_def)

lemma mset_rebuild_append_step:
  "\<not> (map_of m (Key a) \<noteq> None \<and> Override a) \<Longrightarrow>
   mset (rebuild_args (apply_extra_arg a m)) = mset (rebuild_args m) + {#format_arg (Key a) (Value a)#}"
  by (auto simp add: apply_extra_arg_def Let_def mset_rebuild_update)

section \<open>Accumulation\<close>

text \<open>
  Claim C2. A directive with \<open>override = false\<close>, and also an overriding directive whose
  key has no value yet, appends its value to the values the key already has and changes
  no other key; the rebuilt tokens gain exactly the token of that key and value. Running
  the same directive twice appends the value twice: duplicates stay. When no later
  directive of the patch names the key, the key ends with its earlier values followed by
  the new one, and a patch that holds the same directive twice leaves at least two copies
  of its token in the arguments. In particular \<^verbatim>\<open>--etcd-prefix=/registry\<close> patched with
  the directive \<^verbatim>\<open>etcd-prefix = /test\<close> (no override) ends with the two tokens
  \<^verbatim>\<open>--etcd-prefix=/registry\<close> and \<^verbatim>\<open>--etcd-prefix=/test\<close>.
\<close>

theorem non_override_appends_value:
  "(\<not> (Override a \<and> map_of m (Key a) \<noteq> None) \<longrightarrow>
      map_of (apply_extra_arg a m) = (map_of m)(Key a \<mapsto> values_of m (Key a) @ [Value a]) \<and>
      mset (rebuild_args (apply_extra_arg a m)) =
        mset (rebuild_args m) + {#format_arg (Key a) (Value a)#}) \<and>
   (\<not> Override a \<longrightarrow>
      values_of (apply_extra_arg a (apply_extra_arg a m)) (Key a) =
        values_of m (Key a) @ [Value a, Value a]) \<and>
   (PName p = CName c \<and> parse_args [] (Args c) = Inr m0 \<and> ExtraArgs p = before @ a # after \<and>
    \<not> (Override a \<and> map_of (apply_extra_args before m0) (Key a) \<noteq> None) \<and>
    (\<forall>b\<in>set after. Key b \<noteq> Key a) \<longrightarrow>
      map_of (apply_extra_args (ExtraArgs p) m0) (Key a) =
        Some (values_of (apply_extra_args before m0) (Key a) @ [Value a]) \<and>
      (\<exists>c'. applyComponentPatch c p = Inr c' \<and>
         mset (Args c') =
           mset (map (format_arg (Key a)) (values_of (apply_extra_args before m0) (Key a) @ [Value a])) +
           mset (rebuild_args (AList.delete (Key a) (apply_extra_args (ExtraArgs p) m0))))) \<and>
   (PName r = CName e \<and> ExtraArgs r = [a, a] \<and> \<not> Override a \<longrightarrow>
      (\<exists>e'. applyComponentPatch e r = Inr e' \<and>
         2 \<le> count (mset (Args e')) (format_arg (Key a) (Value a)))) \<and>
   (PName q = CName d \<and> Args d = [''--etcd-prefix=/registry''] \<and>
    ExtraArgs q = [\<lparr>Key = ''etcd-prefix'', Value = ''/test'', Override = False\<rparr>] \<longrightarrow>
      (\<exists>d'. applyComponentPatch d q = Inr d' \<and>
         Args d' = [''--etcd-prefix=/registry'', ''--etcd-prefix=/test'']))"
proof (intro conjI impI)
  assume h: "\<not> (Override a \<and> map_of m (Key a) \<noteq> None)"
  then show "map_of (apply_extra_arg a m) = (map_of m)(Key a \<mapsto> values_of m (Key a) @ [Value a])"
    by (intro append_step) blast
  from h show "mset (rebuild_args (apply_extra_arg a m)) =
        mset (rebuild_args m) + {#format_arg (Key a) (Value a)#}"
    by (intro mset_rebuild_append_step) blast
next
  assume "\<not> Override a"
  then show "values_of (apply_extra_arg a (apply_extra_arg a m)) (Key a) =
        values_of m (Key a) @ [Value a, Value a]"
    by (simp add: values_of_apply_extra_arg_same)
next
  assume h: "PName p = CName c \<and> parse_args [] (Args c) = Inr m0 \<and> ExtraArgs p = before @ a # after \<and>
    \<not> (Override a \<and> map_of (apply_extra_args before m0) (Key a) \<noteq> None) \<and>
    (\<forall>b\<in>set after. Key b \<noteq> Key a)"
  let ?m = "apply_extra_args before m0"
  let ?final = "apply_extra_args (ExtraArgs p) m0"
  let ?vs = "values_of ?m (Key a) @ [Value a]"
  from h have m0: "m0 = fold add_arg (Args c) []" by (simp add: parse_args_fold)
  from h have "\<not> (map_of ?m (Key a) \<noteq> None \<and> Override a)" by blast
  then have step: "map_of (apply_extra_arg a ?m) = (map_of ?m)(Key a \<mapsto> ?vs)"
    by (rule append_step)
  have final: "?final = apply_extra_args after (apply_extra_arg a ?m)"
    using h by (simp add: apply_extra_args_append apply_extra_args_Cons)
  from h have "map_of ?final (Key a) = map_of (apply_extra_arg a ?m) (Key a)"
    unfolding final by (intro map_of_apply_extra_args_other) simp
  with step show vals: "map_of ?final (Key a) = Some ?vs" by simp
  have "distinct (map fst ?final)"
    unfolding m0 by (intro distinct_apply_extra_args distinct_fold_add_arg) simp
  from mset_rebuild_delete [OF this vals]
  have "mset (rebuild_args ?final) =
        mset (map (format_arg (Key a)) ?vs) + mset (rebuild_args (AList.delete (Key a) ?final))" .
  with h show "\<exists>c'. applyComponentPatch c p = Inr c' \<and>
         mset (Args c') = mset (map (format_arg (Key a)) ?vs) +
           mset (rebuild_args (AList.delete (Key a) ?final))"
    by (simp add: applyComponentPatch_match m0)
next
  assume h: "PName r = CName e \<and> ExtraArgs r = [a, a] \<and> \<not> Override a"
  let ?m0 = "fold add_arg (Args e) []"
  from h have "mset (rebuild_args (apply_extra_args (ExtraArgs r) ?m0)) =
     mset (rebuild_args ?m0) + {#format_arg (Key a) (Value a)#} + {#format_arg (Key a) (Value a)#}"
    by (simp add: apply_extra_args_def mset_rebuild_append_step)
  then have "2 \<le> count (mset (rebuild_args (apply_extra_args (ExtraArgs r) ?m0)))
                      (format_arg (Key a) (Value a))"
    by simp
  with h show "\<exists>e'. applyComponentPatch e r = Inr e' \<and>
         2 \<le> count (mset (Args e')) (format_arg (Key a) (Value a))"
    by (simp add: applyComponentPatch_match)
next
  assume h: "PName q = CName d \<and> Args d = [''--etcd-prefix=/registry''] \<and>
    ExtraArgs q = [\<lparr>Key = ''etcd-prefix'', Value = ''/test'', Override = False\<rparr>]"
  have "sort (rebuild_args (apply_extra_args
          [\<lparr>Key = ''etcd-prefix'', Value = ''/test'', Override = False\<rparr>]
          (fold add_arg [''--etcd-prefix=/registry''] []))) =
        [''--etcd-prefix=/registry'', ''--etcd-prefix=/test'']"
    by code_simp
  with h show "\<exists>d'. applyComponentPatch d q = Inr d' \<and>
         Args d' = [''--etcd-prefix=/registry'', ''--etcd-prefix=/test'']"
    by (simp add: applyComponentPatch_match)
qed


theorem non_override_appends_value_witness:
  "parse_args [] (Args (newDefault\<lparr>Args := [''--etcd-prefix=/registry'']\<rparr>)) =
     Inr [(''etcd-prefix'', [''/registry''])] \<and>
   map_of (apply_extra_arg \<lparr>Key = ''etcd-prefix'', Value = ''/test'', Override = False\<rparr>
             [(''etcd-prefix'', [''/registry''])]) ''etcd-prefix'' = Some [''/registry'', ''/test''] \<and>
   values_of (apply_extra_arg \<lparr>Key = ''etcd-prefix'', Value = ''/test'', Override = False\<rparr>
             (apply_extra_arg \<lparr>Key = ''etcd-prefix'', Value = ''/test'', Override = False\<rparr>
                [(''etcd-prefix'', [''/registry''])])) ''etcd-prefix'' =
     [''/registry'', ''/test'', ''/test''] \<and>
   (\<exists>e'. applyComponentPatch newDefault
            ((test_patch ''etcd-prefix'' ''/test'' False)
               \<lparr>ExtraArgs := [\<lparr>Key = ''etcd-prefix'', Value = ''/test'', Override = False\<rparr>,
                               \<lparr>Key = ''etcd-prefix'', Value = ''/test'', Override = False\<rparr>]\<rparr>) = Inr e' \<and>
         2 \<le> count (mset (Args e')) ''--etcd-prefix=/test'') \<and>
   (\<exists>d'. applyComponentPatch (newDefault\<lparr>Args := [''--etcd-prefix=/registry'']\<rparr>)
            (test_patch ''etcd-prefix'' ''/test'' False) = Inr d' \<and>
         Args d' = [''--etcd-prefix=/registry'', ''--etcd-prefix=/test''])"
proof -
  let ?c = "newDefault\<lparr>Args := [''--etcd-prefix=/registry'']\<rparr>"
  let ?a = "\<lparr>Key = ''etcd-prefix'', Value = ''/test'', Override = False\<rparr>"
  let ?p = "test_patch ''etcd-prefix'' ''/test'' False"
  let ?r = "?p\<lparr>ExtraArgs := [?a, ?a]\<rparr>"
  let ?m0 = "[(''etcd-prefix'', [''/registry''])]"
  have parsed: "parse_args [] [''--etcd-prefix=/registry''] = Inr ?m0"
    by code_simp
  have h1: "\<not> (Override ?a \<and> map_of ?m0 (Key ?a) \<noteq> None)" and h2: "\<not> Override ?a"
    by simp_all
  have h3: "PName ?p = CName ?c \<and> parse_args [] (Args ?c) = Inr ?m0 \<and>
      ExtraArgs ?p = [] @ ?a # [] \<and>
      \<not> (Override ?a \<and> map_of (apply_extra_args [] ?m0) (Key ?a) \<noteq> None) \<and>
      (\<forall>b\<in>set []. Key b \<noteq> Key ?a)"
    using parsed by (simp add: newDefault_def test_patch_def)
  have h4: "PName ?r = CName newDefault \<and> ExtraArgs ?r = [?a, ?a] \<and> \<not> Override ?a"
    by (simp add: newDefault_def test_patch_def)
  have h5: "PName ?p = CName ?c \<and> Args ?c = [''--etcd-prefix=/registry''] \<and> ExtraArgs ?p = [?a]"
    by (simp add: newDefault_def test_patch_def)
  have fmt: "format_arg ''etcd-prefix'' ''/test'' = ''--etcd-prefix=/test''"
    by (simp add: format_arg_def)
  have vals: "values_of ?m0 ''etcd-prefix'' = [''/registry'']"
    by (simp add: values_of_def)
  from non_override_appends_value [of ?a ?m0 ?p ?c ?m0 "[]" "[]" ?r newDefault ?p ?c] h1 h2 h3 h4 h5
  show ?thesis using parsed by (simp add: fmt vals)
qed

section \<open>Rebuilding and sorting\<close>

lemma mset_rebuild_args:
  "mset (rebuild_args m) = (\<Sum>(k, vs)\<in>#mset m. mset (map (format_arg k) vs))"
  by (induction m) (auto simp: rebuild_args_def)

lemma mset_rebuild_perm: "mset m' = mset m \<Longrightarrow> mset (rebuild_args m') = mset (rebuild_args m)"
  by (simp only: mset_rebuild_args)

lemma format_arg_fun: "format_arg k = (\<lambda>v. ''--'' @ k @ ''='' @ v)"
  by (simp add: fun_eq_iff format_arg_def)

lemma rebuilt_order_irrelevant:
  assumes "mset m' = mset m"
  shows "sort (rebuild_args m') = sort (rebuild_args m)"
proof (rule properties_for_sort)
  from mset_rebuild_perm [OF assms]
  show "mset (sort (rebuild_args m)) = mset (rebuild_args m')" by simp
  show "sorted (sort (rebuild_args m))" by simp
qed

lemma length_rebuild_args: "length (rebuild_args m) = sum_list (map (\<lambda>(k, vs). length vs) m)"
  by (induction m) (auto simp: rebuild_args_def)

lemma CName_applyComponentPatch: "applyComponentPatch c p = Inr c' \<Longrightarrow> CName c' = CName c"
proof (cases "PName p = CName c")
  case True
  assume "applyComponentPatch c p = Inr c'"
  with True show ?thesis by (auto simp: applyComponentPatch_match)
next
  case False
  assume "applyComponentPatch c p = Inr c'"
  with False show ?thesis by (simp add: applyComponentPatch_def)
qed

lemma applyComponentPatch_total: "\<exists>c'. applyComponentPatch c p = Inr c'"
proof (cases "PName p = CName c")
  case True
  then show ?thesis by (simp add: applyComponentPatch_match)
next
  case False
  then show ?thesis by (simp add: applyComponentPatch_def)
qed

lemma applyComponentPatchArgs_total: "\<exists>c'. applyComponentPatchArgs c p = Inr c'"
proof (cases "PName p = CName c")
  case True
  then show ?thesis by (simp add: applyComponentPatchArgs_match)
next
  case False
  then show ?thesis by (simp add: applyComponentPatchArgs_def)
qed

lemma ApplyComponentPatches_total: "\<exists>c'. ApplyComponentPatches c ps = Inr c'"
proof (induction ps arbitrary: c)
  case Nil
  show ?case by simp
next
  case (Cons p ps)
  obtain c1 where "applyComponentPatch c p = Inr c1"
    using applyComponentPatch_total by blast
  with Cons show ?case by simp
qed

lemma sorted_applyComponentPatch:
  assumes "applyComponentPatch c p = Inr c'" and "PName p = CName c \<or> sorted (Args c)"
  shows "sorted (Args c')"
proof (cases "PName p = CName c")
  case True
  with assms(1) show ?thesis by (auto simp: applyComponentPatch_match)
next
  case False
  with assms show ?thesis by (simp add: applyComponentPatch_def)
qed

lemma sorted_ApplyComponentPatches:
  "ApplyComponentPatches c ps = Inr c' \<Longrightarrow> (\<exists>q\<in>set ps. PName q = CName c) \<or> sorted (Args c) \<Longrightarrow>
   sorted (Args c')"
proof (induction ps arbitrary: c)
  case Nil
  then show ?case by simp
next
  case (Cons p ps)
  obtain c1 where c1: "applyComponentPatch c p = Inr c1"
    using applyComponentPatch_total by blast
  then have n: "CName c1 = CName c" by (rule CName_applyComponentPatch)
  from Cons.prems(1) c1 have rest: "ApplyComponentPatches c1 ps = Inr c'" by simp
  show ?case
  proof (cases "PName p = CName c \<or> sorted (Args c)")
    case True
    with c1 have "sorted (Args c1)" by (rule sorted_applyComponentPatch)
    with Cons.IH [OF rest] show ?thesis by blast
  next
    case False
    with Cons.prems(2) have "\<exists>q\<in>set ps. PName q = CName c1" using n by auto
    with Cons.IH [OF rest] show ?thesis by blast
  qed
qed

text \<open>
  Claim C3. After a patch with the component's name, the arguments are the sorted list of
  the tokens \<^verbatim>\<open>--key=value\<close>, one for every value of every key of the final mapping (whose
  keys are distinct), so there are as many tokens as values; the list is sorted, and it
  does not depend on the order in which the mapping is traversed. When a list of patches
  holds at least one patch with the component's name, the final arguments are sorted.
\<close>

theorem rebuilt_args_sorted:
  "(PName p = CName c \<longrightarrow>
      (\<exists>c' m0. parse_args [] (Args c) = Inr m0 \<and> applyComponentPatch c p = Inr c' \<and>
         Args c' = sort (concat (map (\<lambda>(k, vs). map (\<lambda>v. ''--'' @ k @ ''='' @ v) vs)
                                     (apply_extra_args (ExtraArgs p) m0))) \<and>
         distinct (map fst (apply_extra_args (ExtraArgs p) m0)) \<and>
         length (Args c') = sum_list (map (\<lambda>(k, vs). length vs) (apply_extra_args (ExtraArgs p) m0)) \<and>
         sorted (Args c') \<and>
         (\<forall>m'. mset m' = mset (apply_extra_args (ExtraArgs p) m0) \<longrightarrow>
               sort (rebuild_args m') = Args c'))) \<and>
   ((\<exists>q\<in>set ps. PName q = CName c) \<longrightarrow>
      (\<exists>c'. ApplyComponentPatches c ps = Inr c' \<and> sorted (Args c')))"
proof (intro conjI impI)
  assume names: "PName p = CName c"
  let ?base = "fold add_arg (Args c) []"
  let ?m = "apply_extra_args (ExtraArgs p) ?base"
  let ?c' = "c\<lparr>Volumes := Volumes c @ ExtraVolumes p, Envs := Envs c @ ExtraEnvs p,
               Args := sort (rebuild_args ?m)\<rparr>"
  have 1: "parse_args [] (Args c) = Inr ?base" by (rule parse_args_fold)
  have 2: "applyComponentPatch c p = Inr ?c'" using names by (rule applyComponentPatch_match)
  have 3: "Args ?c' = sort (concat (map (\<lambda>(k, vs). map (\<lambda>v. ''--'' @ k @ ''='' @ v) vs) ?m))"
    by (simp add: rebuild_args_def format_arg_fun)
  have 4: "distinct (map fst ?m)"
    by (intro distinct_apply_extra_args distinct_fold_add_arg) simp
  have 5: "length (Args ?c') = sum_list (map (\<lambda>(k, vs). length vs) ?m)"
    by (simp add: length_rebuild_args)
  have 6: "sorted (Args ?c')" by simp
  have 7: "\<forall>m'. mset m' = mset ?m \<longrightarrow> sort (rebuild_args m') = Args ?c'"
  proof (intro allI impI)
    fix m' assume "mset m' = mset ?m"
    then have "sort (rebuild_args m') = sort (rebuild_args ?m)" by (rule rebuilt_order_irrelevant)
    then show "sort (rebuild_args m') = Args ?c'" by simp
  qed
  show "\<exists>c' m0. parse_args [] (Args c) = Inr m0 \<and> applyComponentPatch c p = Inr c' \<and>
         Args c' = sort (concat (map (\<lambda>(k, vs). map (\<lambda>v. ''--'' @ k @ ''='' @ v) vs)
                                     (apply_extra_args (ExtraArgs p) m0))) \<and>
         distinct (map fst (apply_extra_args (ExtraArgs p) m0)) \<and>
         length (Args c') = sum_list (map (\<lambda>(k, vs). length vs) (apply_extra_args (ExtraArgs p) m0)) \<and>
         sorted (Args c') \<and>
         (\<forall>m'. mset m' = mset (apply_extra_args (ExtraArgs p) m0) \<longrightarrow>
               sort (rebuild_args m') = Args c')"
    using 1 2 3 4 5 6 7 by (intro exI [of _ ?c'] exI [of _ ?base] conjI)
next
  assume some: "\<exists>q\<in>set ps. PName q = CName c"
  obtain c' where c': "ApplyComponentPatches c ps = Inr c'"
    using ApplyComponentPatches_total by blast
  with some have "sorted (Args c')" using sorted_ApplyComponentPatches [OF c'] by blast
  with c' show "\<exists>c'. ApplyComponentPatches c ps = Inr c' \<and> sorted (Args c')" by blast
qed

theorem rebuilt_args_sorted_witness:
  "PName (test_patch ''etcd-prefix'' ''/test'' False) = CName newDefault \<and>
   (\<exists>q\<in>set [test_patch ''etcd-prefix'' ''/test'' False]. PName q = CName newDefault) \<and>
   (\<exists>c'. applyComponentPatch newDefault (test_patch ''etcd-prefix'' ''/test'' False) = Inr c' \<and>
      sorted (Args c')) \<and>
   (\<exists>c'. ApplyComponentPatches newDefault [test_patch ''etcd-prefix'' ''/test'' False] = Inr c' \<and>
      sorted (Args c'))"
proof -
  let ?p = "test_patch ''etcd-prefix'' ''/test'' False"
  have h1: "PName ?p = CName newDefault" by (simp add: test_patch_def newDefault_def)
  then have h2: "\<exists>q\<in>set [?p]. PName q = CName newDefault" by simp
  from rebuilt_args_sorted [of ?p newDefault "[?p]"] h1 h2
  show ?thesis by blast
qed

lemma empty_key_or_value_iff:
  "empty_key_or_value arg \<longleftrightarrow> fst (kv_of arg) = '''' \<or> snd (kv_of arg) = ''''"
  by (simp add: empty_key_or_value_def getKeyValueFromArg_total split: prod.splits)

lemma malformed_empty_key_or_value: "malformed arg \<Longrightarrow> empty_key_or_value arg"
  by (simp add: empty_key_or_value_iff kv_of_malformed)

lemma add_arg_dropped: "empty_key_or_value arg \<Longrightarrow> add_arg arg m = m"
  by (auto simp: empty_key_or_value_iff add_arg_def split: prod.splits)

lemma fold_add_arg_filter:
  "(\<And>arg. \<not> P arg \<Longrightarrow> empty_key_or_value arg) \<Longrightarrow>
   fold add_arg (filter P args) m = fold add_arg args m"
  by (induction args arbitrary: m) (simp_all add: add_arg_dropped)

lemma mset_rebuild_add_arg:
  "\<not> empty_key_or_value arg \<Longrightarrow>
   mset (rebuild_args (add_arg arg m)) =
   mset (rebuild_args m) + {#format_arg (fst (kv_of arg)) (snd (kv_of arg))#}"
  by (auto simp: empty_key_or_value_iff add_arg_def mset_rebuild_update split: prod.splits)

lemma mset_rebuild_fold_add_arg:
  "mset (rebuild_args (fold add_arg args m)) =
   mset (rebuild_args m) +
   mset (map (\<lambda>t. format_arg (fst (kv_of t)) (snd (kv_of t)))
             (filter (\<lambda>t. \<not> empty_key_or_value t) args))"
  by (induction args arbitrary: m) (simp_all add: add_arg_dropped mset_rebuild_add_arg)

lemma rebuild_args_Nil: "rebuild_args [] = []"
  by (simp add: rebuild_args_def)

lemma format_arg_well_formed: "\<not> malformed (format_arg k v)"
  by (simp add: malformed_def format_arg_def strings_HasPrefix_def strings_Contains_char)

lemma set_rebuild_args:
  "t \<in> set (rebuild_args m) \<Longrightarrow> \<exists>k v. t = format_arg k v"
  by (auto simp: rebuild_args_def)

section \<open>Totality, malformed tokens, patches for other components\<close>

text \<open>
  Claim C5. The merge never fails: the tokenizer, \<^verbatim>\<open>applyComponentPatchArgs\<close>,
  \<^verbatim>\<open>applyComponentPatch\<close> and \<^verbatim>\<open>ApplyComponentPatches\<close> return a result on every input,
  never the panic. For a malformed token (no two-dash prefix, or no equals sign) the
  tokenizer returns the empty pair without an error; under a patch with the component's
  name the result is the one obtained after removing the malformed tokens from the
  baseline, and no token of the rebuilt arguments is malformed.
\<close>

theorem merge_total_drops_malformed:
  "(\<exists>kv. getKeyValueFromArg arg = Inr kv) \<and>
   (\<exists>c'. applyComponentPatchArgs c p = Inr c') \<and>
   (\<exists>c'. applyComponentPatch c p = Inr c') \<and>
   (\<exists>c'. ApplyComponentPatches c ps = Inr c') \<and>
   (malformed arg \<longrightarrow> getKeyValueFromArg arg = Inr ('''', '''')) \<and>
   (PName p = CName c \<longrightarrow>
      applyComponentPatchArgs c p =
        applyComponentPatchArgs (c\<lparr>Args := filter (\<lambda>t. \<not> malformed t) (Args c)\<rparr>) p \<and>
      (\<forall>c' t. applyComponentPatchArgs c p = Inr c' \<and> t \<in> set (Args c') \<longrightarrow> \<not> malformed t))"
proof (intro conjI impI allI)
  show "\<exists>kv. getKeyValueFromArg arg = Inr kv"
    using getKeyValueFromArg_total by blast
  show "\<exists>c'. applyComponentPatchArgs c p = Inr c'" by (rule applyComponentPatchArgs_total)
  show "\<exists>c'. applyComponentPatch c p = Inr c'" by (rule applyComponentPatch_total)
  show "\<exists>c'. ApplyComponentPatches c ps = Inr c'" by (rule ApplyComponentPatches_total)
next
  assume "malformed arg"
  then show "getKeyValueFromArg arg = Inr ('''', '''')"
    by (simp add: getKeyValueFromArg_total kv_of_malformed)
next
  assume names: "PName p = CName c"
  have "fold add_arg (filter (\<lambda>t. \<not> malformed t) (Args c)) [] = fold add_arg (Args c) []"
    by (rule fold_add_arg_filter) (simp add: malformed_empty_key_or_value)
  with names show "applyComponentPatchArgs c p =
        applyComponentPatchArgs (c\<lparr>Args := filter (\<lambda>t. \<not> malformed t) (Args c)\<rparr>) p"
    by (simp add: applyComponentPatchArgs_match)
next
  fix c' t
  assume names: "PName p = CName c"
    and "applyComponentPatchArgs c p = Inr c' \<and> t \<in> set (Args c')"
  then have "t \<in> set (rebuild_args (apply_extra_args (ExtraArgs p) (fold add_arg (Args c) [])))"
    by (auto simp: applyComponentPatchArgs_match)
  then obtain k v where "t = format_arg k v" using set_rebuild_args by blast
  then show "\<not> malformed t" by (simp add: format_arg_well_formed)
qed

text \<open>
  Claim C6. A patch whose name differs from the component's name returns the component as
  it is: arguments, environment, volumes and every other field (the \<open>more\<close> part of the
  record). A list of patches none of which has the component's name does the same.
\<close>

theorem non_matching_patch_is_noop:
  "(PName p \<noteq> CName c \<longrightarrow> applyComponentPatch c p = Inr c \<and> applyComponentPatchArgs c p = Inr c) \<and>
   ((\<forall>q\<in>set ps. PName q \<noteq> CName c) \<longrightarrow> ApplyComponentPatches c ps = Inr c)"
proof (intro conjI impI)
  assume "PName p \<noteq> CName c"
  then show "applyComponentPatch c p = Inr c" by (simp add: applyComponentPatch_def)
next
  assume "PName p \<noteq> CName c"
  then show "applyComponentPatchArgs c p = Inr c" by (simp add: applyComponentPatchArgs_def)
next
  assume "\<forall>q\<in>set ps. PName q \<noteq> CName c"
  then show "ApplyComponentPatches c ps = Inr c"
    by (induction ps) (simp_all add: applyComponentPatch_def)
qed

text \<open>
  Claim C10. Under a patch with the component's name, a baseline token whose parsed key
  or parsed value is empty does not reach the rebuilt arguments: the result is the one
  obtained after removing these tokens from the baseline, and with no directive in the
  patch the rebuilt arguments are exactly one token for each of the other baseline tokens.
  Malformed tokens are among the removed ones, and so is the well-formed token
  \<^verbatim>\<open>--key=\<close>, whose value is empty.
\<close>

theorem empty_key_or_value_dropped:
  "(PName p = CName c \<longrightarrow>
      applyComponentPatchArgs c p =
        applyComponentPatchArgs (c\<lparr>Args := filter (\<lambda>t. \<not> empty_key_or_value t) (Args c)\<rparr>) p) \<and>
   (PName p = CName c \<and> ExtraArgs p = [] \<longrightarrow>
      (\<exists>c'. applyComponentPatchArgs c p = Inr c' \<and>
         mset (Args c') = mset (map (\<lambda>t. format_arg (fst (kv_of t)) (snd (kv_of t)))
                                   (filter (\<lambda>t. \<not> empty_key_or_value t) (Args c))))) \<and>
   (malformed arg \<longrightarrow> empty_key_or_value arg) \<and>
   getKeyValueFromArg ''--key='' = Inr (''key'', '''') \<and>
   \<not> malformed ''--key='' \<and> empty_key_or_value ''--key='' \<and>
   (PName q = CName d \<and> Args d = [''--key='', ''--etcd-prefix=/registry''] \<and> ExtraArgs q = [] \<longrightarrow>
      (\<exists>d'. applyComponentPatch d q = Inr d' \<and> Args d' = [''--etcd-prefix=/registry'']))"
proof (intro conjI impI)
  assume names: "PName p = CName c"
  have "fold add_arg (filter (\<lambda>t. \<not> empty_key_or_value t) (Args c)) [] = fold add_arg (Args c) []"
    by (rule fold_add_arg_filter) simp
  with names show "applyComponentPatchArgs c p =
        applyComponentPatchArgs (c\<lparr>Args := filter (\<lambda>t. \<not> empty_key_or_value t) (Args c)\<rparr>) p"
    by (simp add: applyComponentPatchArgs_match)
next
  assume h: "PName p = CName c \<and> ExtraArgs p = []"
  have "mset (rebuild_args (fold add_arg (Args c) [])) =
        mset (map (\<lambda>t. format_arg (fst (kv_of t)) (snd (kv_of t)))
                  (filter (\<lambda>t. \<not> empty_key_or_value t) (Args c)))"
    using mset_rebuild_fold_add_arg [of "Args c" "[]"] by (simp add: rebuild_args_Nil)
  with h show "\<exists>c'. applyComponentPatchArgs c p = Inr c' \<and>
         mset (Args c') = mset (map (\<lambda>t. format_arg (fst (kv_of t)) (snd (kv_of t)))
                                   (filter (\<lambda>t. \<not> empty_key_or_value t) (Args c)))"
    by (simp add: applyComponentPatchArgs_match apply_extra_args_def)
next
  assume "malformed arg"
  then show "empty_key_or_value arg" by (rule malformed_empty_key_or_value)
next
  show "getKeyValueFromArg ''--key='' = Inr (''key'', '''')" by code_simp
  show "\<not> malformed ''--key=''" by code_simp
  show "empty_key_or_value ''--key=''" by code_simp
next
  assume h: "PName q = CName d \<and> Args d = [''--key='', ''--etcd-prefix=/registry''] \<and> ExtraArgs q = []"
  have "sort (rebuild_args (apply_extra_args []
          (fold add_arg [''--key='', ''--etcd-prefix=/registry''] []))) =
        [''--etcd-prefix=/registry'']"
    by code_simp
  with h show "\<exists>d'. applyComponentPatch d q = Inr d' \<and> Args d' = [''--etcd-prefix=/registry'']"
    by (simp add: applyComponentPatch_match)
qed

theorem merge_total_drops_malformed_witness:
  "malformed ''verbose'' \<and> malformed ''-v=2'' \<and>
   getKeyValueFromArg ''verbose'' = Inr ('''', '''') \<and>
   PName ((test_patch ''k'' ''v'' False)\<lparr>ExtraArgs := []\<rparr>) =
     CName (newDefault\<lparr>Args := [''verbose'', ''--etcd-prefix=/registry'', ''-v=2'']\<rparr>) \<and>
   applyComponentPatchArgs (newDefault\<lparr>Args := [''verbose'', ''--etcd-prefix=/registry'', ''-v=2'']\<rparr>)
       ((test_patch ''k'' ''v'' False)\<lparr>ExtraArgs := []\<rparr>) =
     applyComponentPatchArgs (newDefault\<lparr>Args := [''--etcd-prefix=/registry'']\<rparr>)
       ((test_patch ''k'' ''v'' False)\<lparr>ExtraArgs := []\<rparr>) \<and>
   applyComponentPatchArgs (newDefault\<lparr>Args := [''verbose'', ''--etcd-prefix=/registry'', ''-v=2'']\<rparr>)
       ((test_patch ''k'' ''v'' False)\<lparr>ExtraArgs := []\<rparr>) =
     Inr (newDefault\<lparr>Args := [''--etcd-prefix=/registry'']\<rparr>) \<and>
   \<not> malformed ''--etcd-prefix=/registry''"
proof -
  let ?c = "newDefault\<lparr>Args := [''verbose'', ''--etcd-prefix=/registry'', ''-v=2'']\<rparr>"
  let ?p = "(test_patch ''k'' ''v'' False)\<lparr>ExtraArgs := []\<rparr>"
  let ?c' = "newDefault\<lparr>Args := [''--etcd-prefix=/registry'']\<rparr>"
  have m1: "malformed ''verbose''" and m2: "malformed ''-v=2''" by code_simp+
  have names: "PName ?p = CName ?c" by (simp add: test_patch_def newDefault_def)
  have flt: "filter (\<lambda>t. \<not> malformed t) [''verbose'', ''--etcd-prefix=/registry'', ''-v=2''] =
             [''--etcd-prefix=/registry'']"
    by code_simp
  have run: "applyComponentPatchArgs ?c ?p = Inr ?c'"
    unfolding newDefault_def test_patch_def by code_simp
  have mem: "applyComponentPatchArgs ?c ?p = Inr ?c' \<and> ''--etcd-prefix=/registry'' \<in> set (Args ?c')"
    using run by simp
  from merge_total_drops_malformed [of "''verbose''" ?c ?p "[]"] m1 names mem flt
  show ?thesis using m2 run by simp
qed

theorem non_matching_patch_is_noop_witness:
  "PName ((test_patch ''etcd-prefix'' ''/test'' False)\<lparr>PName := ''other''\<rparr>) \<noteq> CName newDefault \<and>
   applyComponentPatch newDefault
     ((test_patch ''etcd-prefix'' ''/test'' False)\<lparr>PName := ''other''\<rparr>) = Inr newDefault \<and>
   ApplyComponentPatches newDefault
     [(test_patch ''etcd-prefix'' ''/test'' False)\<lparr>PName := ''other''\<rparr>] = Inr newDefault"
proof -
  let ?p = "(test_patch ''etcd-prefix'' ''/test'' False)\<lparr>PName := ''other''\<rparr>"
  have h: "PName ?p \<noteq> CName newDefault" by (simp add: test_patch_def newDefault_def)
  then have hs: "\<forall>q\<in>set [?p]. PName q \<noteq> CName newDefault" by simp
  from non_matching_patch_is_noop [of ?p newDefault "[?p]"] h hs
  show ?thesis by blast
qed

theorem empty_key_or_value_dropped_witness:
  "PName ((test_patch ''k'' ''v'' False)\<lparr>ExtraArgs := []\<rparr>) =
     CName (newDefault\<lparr>Args := [''--key='', ''--etcd-prefix=/registry'']\<rparr>) \<and>
   malformed ''verbose'' \<and> empty_key_or_value ''verbose'' \<and>
   applyComponentPatchArgs (newDefault\<lparr>Args := [''--key='', ''--etcd-prefix=/registry'']\<rparr>)
       ((test_patch ''k'' ''v'' False)\<lparr>ExtraArgs := []\<rparr>) =
     applyComponentPatchArgs (newDefault\<lparr>Args := [''--etcd-prefix=/registry'']\<rparr>)
       ((test_patch ''k'' ''v'' False)\<lparr>ExtraArgs := []\<rparr>) \<and>
   (\<exists>d'. applyComponentPatch (newDefault\<lparr>Args := [''--key='', ''--etcd-prefix=/registry'']\<rparr>)
       ((test_patch ''k'' ''v'' False)\<lparr>ExtraArgs := []\<rparr>) = Inr d' \<and>
         Args d' = [''--etcd-prefix=/registry''])"
proof -
  let ?c = "newDefault\<lparr>Args := [''--key='', ''--etcd-prefix=/registry'']\<rparr>"
  let ?p = "(test_patch ''k'' ''v'' False)\<lparr>ExtraArgs := []\<rparr>"
  have m1: "malformed ''verbose''" by code_simp
  have h1: "PName ?p = CName ?c" by (simp add: test_patch_def newDefault_def)
  have h2: "PName ?p = CName ?c \<and> ExtraArgs ?p = []" using h1 by simp
  have h3: "PName ?p = CName ?c \<and> Args ?c = [''--key='', ''--etcd-prefix=/registry''] \<and> ExtraArgs ?p = []"
    using h1 by simp
  have flt: "filter (\<lambda>t. \<not> empty_key_or_value t) [''--key='', ''--etcd-prefix=/registry''] =
             [''--etcd-prefix=/registry'']"
    by code_simp
  from empty_key_or_value_dropped [of ?p ?c "''verbose''" ?p ?c] h1 h2 h3 m1 flt
  show ?thesis by simp
qed

text \<open>
  On a token \<^verbatim>\<open>--k=v\<close> whose key holds neither \<^verbatim>\<open>=\<close> nor \<^verbatim>\<open>--\<close> and whose value does
  not hold \<^verbatim>\<open>--k=\<close>, the tokenizer returns the key and the value.
\<close>

lemma ReplaceAll_absent:
  "old \<noteq> [] \<Longrightarrow> \<not> strings_Contains s old \<Longrightarrow> strings_ReplaceAll s old [] = s"
  by (induction s) auto

lemma ReplaceAll_prefix:
  "old \<noteq> [] \<Longrightarrow> strings_ReplaceAll (old @ rest) old [] = strings_ReplaceAll rest old []"
  by (cases old) (auto simp: strings_HasPrefix_def)

lemma getKeyValueFromArg_format_arg:
  assumes "CHR ''='' \<notin> set k" and "\<not> strings_Contains k ''--''"
    and "\<not> strings_Contains v (''--'' @ k @ ''='')"
  shows "getKeyValueFromArg (format_arg k v) = Inr (k, v)"
proof -
  let ?arg = "''--'' @ k @ ''='' @ v"
  have c: "strings_Contains ?arg ''=''" by (simp add: strings_Contains_char)
  have p: "strings_HasPrefix ?arg ''--''" by (simp add: strings_HasPrefix_def)
  have "takeWhile (\<lambda>x. x \<noteq> CHR ''='') ?arg = ''--'' @ k"
    using assms(1) by (auto simp: takeWhile_tail)
  then have hd: "hd (strings_Split ?arg ''='') = ''--'' @ k"
    using split_from_hd [of "CHR ''=''" "[]" ?arg] by (simp add: strings_Split_def)
  obtain s0 rest where sp: "strings_Split ?arg ''='' = s0 # rest"
    using strings_Split_not_Nil [of "''=''" ?arg] by (cases "strings_Split ?arg ''=''") auto
  with hd have s0: "s0 = ''--'' @ k" by simp
  have key: "strings_ReplaceAll s0 ''--'' [] = k"
    unfolding s0 using ReplaceAll_prefix [of "''--''" k] ReplaceAll_absent [of "''--''" k] assms(2)
    by simp
  have "strings_ReplaceAll ((s0 @ ''='') @ v) (s0 @ ''='') [] = strings_ReplaceAll v (s0 @ ''='') []"
    by (rule ReplaceAll_prefix) simp
  also have "\<dots> = v" using assms(3) by (intro ReplaceAll_absent) (simp_all add: s0)
  finally have val: "strings_ReplaceAll ?arg (s0 @ ''='') [] = v" by (simp add: s0)
  from c p sp key val show ?thesis
    by (simp add: getKeyValueFromArg_def format_arg_def)
qed

section \<open>What the tokenizer returns\<close>

text \<open>
  Claim C4. The claim takes the key to be the text between the two-dash prefix and the
  equals sign, and the value to be the text after it. The tokenizer removes every
  occurrence of \<^verbatim>\<open>--\<close> from the text before the first equals sign, and every occurrence
  of that text followed by \<^verbatim>\<open>=\<close> from the token: for \<^verbatim>\<open>--k=--k=v\<close> it returns the value
  \<^verbatim>\<open>v\<close> where the text after the equals sign is \<^verbatim>\<open>--k=v\<close>, and for \<^verbatim>\<open>--a--b=c\<close> it
  returns the key \<^verbatim>\<open>ab\<close> where the text between prefix and equals sign is \<^verbatim>\<open>a--b\<close>.
  A token with a second equals sign, \<^verbatim>\<open>--k=v=w\<close>, is parsed with the value \<^verbatim>\<open>v=w\<close>.
  The merge itself produces such a token: a first patch that adds the value \<^verbatim>\<open>--k=v\<close>
  for the key \<^verbatim>\<open>k\<close> writes \<^verbatim>\<open>--k=--k=v\<close>, and a second patch of the same component,
  with no directive at all, reads it back as \<^verbatim>\<open>--k=v\<close>.
\<close>

theorem tokenizer_removes_every_occurrence:
  "getKeyValueFromArg ''--k=--k=v'' = Inr (''k'', ''v'') \<and>
   getKeyValueFromArg ''--a--b=c'' = Inr (''ab'', ''c'') \<and>
   getKeyValueFromArg ''--k=v=w'' = Inr (''k'', ''v=w'') \<and>
   ApplyComponentPatches (newDefault\<lparr>Args := []\<rparr>)
     [test_patch ''k'' ''--k=v'' False, (test_patch ''k'' ''v'' False)\<lparr>ExtraArgs := []\<rparr>] =
   Inr (newDefault\<lparr>Args := [''--k=v'']\<rparr>)"
  unfolding newDefault_def test_patch_def by code_simp

section \<open>The derived log volumes\<close>

lemma undecimal_snoc: "undecimal (s @ [c]) = 10 * undecimal s + (of_char c - 48)"
  by (simp add: undecimal_def)

lemma of_char_digit: "d < 10 \<Longrightarrow> of_char (digit d) = 48 + d"
  by (simp add: digit_def)

lemma undecimal_decimal: "undecimal (decimal n) = n"
proof (induction n rule: decimal.induct)
  case (1 n)
  show ?case
  proof (cases "n < 10")
    case True
    then show ?thesis by (subst decimal.simps) (simp add: undecimal_def of_char_digit)
  next
    case False
    have "undecimal (decimal n) = undecimal (decimal (n div 10) @ [digit (n mod 10)])"
      using False by (subst decimal.simps) simp
    also have "\<dots> = 10 * (n div 10) + n mod 10"
      using 1 False by (simp add: undecimal_snoc of_char_digit)
    finally show ?thesis by simp
  qed
qed

lemma decimal_inj: "decimal m = decimal n \<Longrightarrow> m = n"
  by (metis undecimal_decimal)

lemma set_fold_insert:
  "set (fold (\<lambda>l. List.insert (g l)) ls m) = set m \<union> g ` set ls"
  by (induction ls arbitrary: m) auto

lemma distinct_fold_insert:
  "distinct m \<Longrightarrow> distinct (fold (\<lambda>l. List.insert (g l)) ls m)"
  by (induction ls arbitrary: m) auto

lemma set_fold_fold_insert:
  "set (fold (\<lambda>x. fold (\<lambda>l. List.insert (D (f l))) (h x)) xs m) =
   set m \<union> D ` set (concat (map (\<lambda>x. map f (h x)) xs))"
proof (induction xs arbitrary: m)
  case Nil
  show ?case by simp
next
  case (Cons x xs)
  have "set (fold (\<lambda>l. List.insert (D (f l))) (h x) m) = set m \<union> D ` f ` set (h x)"
    using set_fold_insert [of "\<lambda>l. D (f l)" "h x" m] by (simp add: image_image)
  with Cons show ?case by (simp add: image_Un Un_assoc)
qed

lemma distinct_fold_fold_insert:
  "distinct m \<Longrightarrow> distinct (fold (\<lambda>x. fold (\<lambda>l. List.insert (g l)) (h x)) xs m)"
  by (induction xs arbitrary: m) (auto simp: distinct_fold_insert)


lemma sort_distinct_eq: "distinct xs \<Longrightarrow> sort xs = sorted_list_of_set (set xs)"
  by (simp add: sorted_list_of_set_sort_remdups distinct_remdups_id)

lemma mountDirs_set:
  "set (fold (\<lambda>ca. fold (\<lambda>a. List.insert (Dir (AttachLogsFile a))) (ClusterAttachSpecAttaches ca))
          clusterAttaches
       (fold (\<lambda>attach. fold (\<lambda>a. List.insert (Dir (AttachLogsFile a))) (AttachSpecAttaches attach))
          attaches
       (fold (\<lambda>cl. fold (\<lambda>l. List.insert (Dir (LogsFile l))) (ClusterLogsSpecLogs cl))
          clusterLogs
       (fold (\<lambda>log. fold (\<lambda>l. List.insert (Dir (LogsFile l))) (LogsSpecLogs log))
          logs [])))) =
   Dir ` set (log_files logs clusterLogs attaches clusterAttaches)"
  by (simp add: set_fold_fold_insert log_files_def image_Un Un_assoc)

lemma mountDirs_distinct:
  "distinct (fold (\<lambda>ca. fold (\<lambda>a. List.insert (Dir (AttachLogsFile a))) (ClusterAttachSpecAttaches ca))
          clusterAttaches
       (fold (\<lambda>attach. fold (\<lambda>a. List.insert (Dir (AttachLogsFile a))) (AttachSpecAttaches attach))
          attaches
       (fold (\<lambda>cl. fold (\<lambda>l. List.insert (Dir (LogsFile l))) (ClusterLogsSpecLogs cl))
          clusterLogs
       (fold (\<lambda>log. fold (\<lambda>l. List.insert (Dir (LogsFile l))) (LogsSpecLogs log))
          logs []))))"
  by (intro distinct_fold_fold_insert) simp

lemma GetLogVolumes_eq:
  "GetLogVolumes Dir logs clusterLogs attaches clusterAttaches =
   map (\<lambda>(i, logsDir).
          \<lparr>Name = ''log-volume-'' @ decimal i, ReadOnly = True, HostPath = logsDir,
           MountPath = logsDir, PathType = HostPathDirectoryOrCreate\<rparr>)
       (enumerate 0 (sorted_list_of_set
          (Dir ` set (log_files logs clusterLogs attaches clusterAttaches))))"
  unfolding GetLogVolumes_def Let_def
  by (simp only: sort_distinct_eq [OF mountDirs_distinct] mountDirs_set)

lemma map_HostPath_volumes:
  "map HostPath (map (\<lambda>(i, logsDir).
          \<lparr>Name = ''log-volume-'' @ decimal i, ReadOnly = True, HostPath = logsDir,
           MountPath = logsDir, PathType = HostPathDirectoryOrCreate\<rparr>) (enumerate n ds)) = ds"
  by (induction ds arbitrary: n) auto

lemma map_Name_volumes:
  "map Name (map (\<lambda>(i, logsDir).
          \<lparr>Name = ''log-volume-'' @ decimal i, ReadOnly = True, HostPath = logsDir,
           MountPath = logsDir, PathType = HostPathDirectoryOrCreate\<rparr>) (enumerate n ds)) =
   map (\<lambda>i. ''log-volume-'' @ decimal i) [n..<n + length ds]"
  by (induction ds arbitrary: n) (auto simp: upt_rec)

lemma distinct_volume_names: "distinct (map (\<lambda>i. ''log-volume-'' @ decimal i) [m..<n])"
  by (auto simp: distinct_map inj_on_def dest: decimal_inj)


lemma decimal_0: "decimal 0 = ''0''"
  by code_simp

text \<open>
  Claim C9. The host paths of the derived volumes are the sorted list, without
  duplicates, of the directories of all the listed log files: one volume for each
  directory, in sorted order. Every volume is read-only, has the path type
  \<^verbatim>\<open>DirectoryOrCreate\<close> and mounts the directory onto itself; the volume at position \<open>i\<close>
  is named \<^verbatim>\<open>log-volume-i\<close>, so the names are distinct. Two specifications whose files lie
  in the same directory give the single volume \<^verbatim>\<open>log-volume-0\<close>.
\<close>

theorem log_volumes_one_per_directory:
  "map HostPath (GetLogVolumes Dir logs clusterLogs attaches clusterAttaches) =
     sorted_list_of_set (Dir ` set (log_files logs clusterLogs attaches clusterAttaches)) \<and>
   length (GetLogVolumes Dir logs clusterLogs attaches clusterAttaches) =
     card (Dir ` set (log_files logs clusterLogs attaches clusterAttaches)) \<and>
   sorted (map HostPath (GetLogVolumes Dir logs clusterLogs attaches clusterAttaches)) \<and>
   distinct (map HostPath (GetLogVolumes Dir logs clusterLogs attaches clusterAttaches)) \<and>
   (\<forall>v\<in>set (GetLogVolumes Dir logs clusterLogs attaches clusterAttaches).
      ReadOnly v \<and> PathType v = HostPathDirectoryOrCreate \<and> MountPath v = HostPath v) \<and>
   (\<forall>i<length (GetLogVolumes Dir logs clusterLogs attaches clusterAttaches).
      Name (GetLogVolumes Dir logs clusterLogs attaches clusterAttaches ! i) =
        ''log-volume-'' @ decimal i) \<and>
   distinct (map Name (GetLogVolumes Dir logs clusterLogs attaches clusterAttaches)) \<and>
   (Dir f1 = Dir f2 \<longrightarrow>
      GetLogVolumes Dir [\<lparr>LogsSpecLogs = [\<lparr>LogsFile = f1\<rparr>]\<rparr>] ([] :: ClusterLogs list)
        [\<lparr>AttachSpecAttaches = [\<lparr>AttachLogsFile = f2\<rparr>]\<rparr>] ([] :: ClusterAttach list) =
      [\<lparr>Name = ''log-volume-0'', ReadOnly = True, HostPath = Dir f1, MountPath = Dir f1,
        PathType = HostPathDirectoryOrCreate\<rparr>])"
proof -
  let ?ds = "sorted_list_of_set (Dir ` set (log_files logs clusterLogs attaches clusterAttaches))"
  let ?vols = "GetLogVolumes Dir logs clusterLogs attaches clusterAttaches"
  have hp: "map HostPath ?vols = ?ds"
    by (simp only: GetLogVolumes_eq map_HostPath_volumes)
  have nm: "map Name ?vols = map (\<lambda>i. ''log-volume-'' @ decimal i) [0..<0 + length ?ds]"
    by (simp only: GetLogVolumes_eq map_Name_volumes)
  have len: "length ?vols = length ?ds"
    using hp by (metis length_map)
  have card: "length ?ds = card (Dir ` set (log_files logs clusterLogs attaches clusterAttaches))"
    by simp
  have srt: "sorted (map HostPath ?vols)" and dst: "distinct (map HostPath ?vols)"
    unfolding hp by simp_all
  have flags: "\<forall>v\<in>set ?vols.
      ReadOnly v \<and> PathType v = HostPathDirectoryOrCreate \<and> MountPath v = HostPath v"
    unfolding GetLogVolumes_eq by auto
  have names: "\<forall>i<length ?vols. Name (?vols ! i) = ''log-volume-'' @ decimal i"
  proof (intro allI impI)
    fix i assume i: "i < length ?vols"
    then have "Name (?vols ! i) = map Name ?vols ! i" by simp
    also have "\<dots> = ''log-volume-'' @ decimal i"
      unfolding nm using i len by simp
    finally show "Name (?vols ! i) = ''log-volume-'' @ decimal i" .
  qed
  have dn: "distinct (map Name ?vols)"
    unfolding nm by (rule distinct_volume_names)
  have same: "Dir f1 = Dir f2 \<longrightarrow>
      GetLogVolumes Dir [\<lparr>LogsSpecLogs = [\<lparr>LogsFile = f1\<rparr>]\<rparr>] ([] :: ClusterLogs list)
        [\<lparr>AttachSpecAttaches = [\<lparr>AttachLogsFile = f2\<rparr>]\<rparr>] ([] :: ClusterAttach list) =
      [\<lparr>Name = ''log-volume-0'', ReadOnly = True, HostPath = Dir f1, MountPath = Dir f1,
        PathType = HostPathDirectoryOrCreate\<rparr>]"
    by (simp add: GetLogVolumes_def decimal_0)
  from hp len card srt dst flags names dn same show ?thesis
    by (simp only: simp_thms)
qed

theorem log_volumes_one_per_directory_witness:
  "GetLogVolumes (\<lambda>f. rev (drop 1 (dropWhile (\<lambda>c. c \<noteq> CHR ''/'') (rev f))))
     [\<lparr>LogsSpecLogs = [\<lparr>LogsFile = ''/var/log/a.log''\<rparr>]\<rparr>] ([] :: ClusterLogs list)
     [\<lparr>AttachSpecAttaches = [\<lparr>AttachLogsFile = ''/var/log/b.log''\<rparr>]\<rparr>] ([] :: ClusterAttach list) =
   [\<lparr>Name = ''log-volume-0'', ReadOnly = True, HostPath = ''/var/log'', MountPath = ''/var/log'',
     PathType = HostPathDirectoryOrCreate\<rparr>] \<and>
   distinct (map Name (GetLogVolumes (\<lambda>f. rev (drop 1 (dropWhile (\<lambda>c. c \<noteq> CHR ''/'') (rev f))))
     [\<lparr>LogsSpecLogs = [\<lparr>LogsFile = ''/var/log/a.log''\<rparr>]\<rparr>] ([] :: ClusterLogs list)
     [\<lparr>AttachSpecAttaches = [\<lparr>AttachLogsFile = ''/var/log/b.log''\<rparr>]\<rparr>] ([] :: ClusterAttach list)))"
proof -
  let ?Dir = "\<lambda>f. rev (drop 1 (dropWhile (\<lambda>c. c \<noteq> CHR ''/'') (rev f)))"
  have d1: "?Dir ''/var/log/a.log'' = ''/var/log''" and d2: "?Dir ''/var/log/b.log'' = ''/var/log''"
    by simp_all
  then have same: "?Dir ''/var/log/a.log'' = ?Dir ''/var/log/b.log''" by simp
  note t = log_volumes_one_per_directory [of ?Dir
      "[\<lparr>LogsSpecLogs = [\<lparr>LogsFile = ''/var/log/a.log''\<rparr>]\<rparr>]" "[] :: ClusterLogs list"
      "[\<lparr>AttachSpecAttaches = [\<lparr>AttachLogsFile = ''/var/log/b.log''\<rparr>]\<rparr>]"
      "[] :: ClusterAttach list" "''/var/log/a.log''" "''/var/log/b.log''"]
  note names = t [THEN conjunct2, THEN conjunct2, THEN conjunct2, THEN conjunct2,
                  THEN conjunct2, THEN conjunct2, THEN conjunct1]
  note one = t [THEN conjunct2, THEN conjunct2, THEN conjunct2, THEN conjunct2,
                THEN conjunct2, THEN conjunct2, THEN conjunct2, THEN mp, OF same]
  from one have "GetLogVolumes ?Dir
     [\<lparr>LogsSpecLogs = [\<lparr>LogsFile = ''/var/log/a.log''\<rparr>]\<rparr>] ([] :: ClusterLogs list)
     [\<lparr>AttachSpecAttaches = [\<lparr>AttachLogsFile = ''/var/log/b.log''\<rparr>]\<rparr>] ([] :: ClusterAttach list) =
   [\<lparr>Name = ''log-volume-0'', ReadOnly = True, HostPath = ''/var/log'', MountPath = ''/var/log'',
     PathType = HostPathDirectoryOrCreate\<rparr>]"
    by (simp only: d1)
  with names show ?thesis by (rule conjI [rotated])
qed

section \<open>The executor\<close>


lemma outcomes_Cons: "outcomes f h (c # cs) = f h c # outcomes f (h @ [c]) cs"
proof -
  have "[0..<length (c # cs)] = 0 # map Suc [0..<length cs]"
    by (simp add: upt_conv_Cons map_Suc_upt del: upt_Suc)
  then show ?thesis by (simp add: outcomes_def comp_def del: upt_Suc)
qed


lemma length_outcomes: "length (outcomes f h cs) = length cs"
  by (simp add: outcomes_def)

lemma nth_outcomes: "j < length cs \<Longrightarrow> outcomes f h cs ! j = f (h @ take j cs) (cs ! j)"
  by (simp add: outcomes_def)

lemma dry_groups_concat: "dry_groups f h groups = dry_group f h (concat groups)"
proof (induction groups arbitrary: h)
  case Nil
  show ?case by simp
next
  case (Cons g gs)
  have app: "\<And>h ys. dry_group f h (g @ ys) =
      (case dry_group f h g of (h', Some err) \<Rightarrow> (h', Some err) | (h', None) \<Rightarrow> dry_group f h' ys)"
  proof (induction g)
    case Nil
    show ?case by simp
  next
    case (Cons c g)
    then show ?case by (simp split: option.splits)
  qed
  show ?case by (simp add: app Cons split: prod.splits option.splits)
qed

lemma dry_group_all_ok:
  "\<forall>r\<in>set (outcomes f h xs). r = None \<Longrightarrow> dry_group f h xs = (h @ xs, None)"
  by (induction xs arbitrary: h) (simp_all add: outcomes_Cons)

lemma dry_group_first_failure:
  "n < length xs \<Longrightarrow> outcomes f h xs ! n = Some err \<Longrightarrow>
   \<forall>i<n. outcomes f h xs ! i = None \<Longrightarrow>
   dry_group f h xs = (h @ take (Suc n) xs, Some err)"
proof (induction xs arbitrary: h n)
  case Nil
  then show ?case by simp
next
  case (Cons c cs)
  show ?case
  proof (cases n)
    case 0
    with Cons.prems show ?thesis by (simp add: outcomes_Cons)
  next
    case (Suc m)
    with Cons.prems have first: "f h c = None" by (auto simp: outcomes_Cons)
    from Cons.prems Suc have "m < length cs" and "outcomes f (h @ [c]) cs ! m = Some err"
      by (simp_all add: outcomes_Cons)
    moreover from Cons.prems(3) Suc have "\<forall>i<m. outcomes f (h @ [c]) cs ! i = None"
      by (auto simp: outcomes_Cons)
    ultimately have "dry_group f (h @ [c]) cs = ((h @ [c]) @ take (Suc m) cs, Some err)"
      by (rule Cons.IH)
    with first Suc show ?thesis by simp
  qed
qed








declare ordered_groups.simps(2) [simp del]






lemma all_outcomes_None_iff:
  "(\<forall>r\<in>set (outcomes f h xs). r = None) \<longleftrightarrow> (\<forall>i<length xs. f (h @ take i xs) (xs ! i) = None)"
  by (simp add: all_set_conv_all_nth length_outcomes nth_outcomes)


text \<open>
  Claim C8. In dry-run mode, whatever \<open>order\<close> is, the action is started on the components
  one after the other, in the order of the groups and, inside a group, in the order of the
  group (\<open>xs\<close> is that sequence). If no call returns an error, the action has been started
  on all of \<open>xs\<close> and \<^verbatim>\<open>nil\<close> is returned. If the call at position \<open>n\<close> is the first to
  return an error, that error is returned and the action has been started on the first
  \<open>n + 1\<close> components only: on none after the failing one.
\<close>

theorem dry_run_is_sequential:
  "config = Inr components \<and> GroupByLinks components = Inr groups \<and>
   xs = concat (if reverse then rev groups else groups) \<longrightarrow>
     ((\<forall>i<length xs. f (take i xs) (xs ! i) = None) \<longrightarrow>
        ForeachComponents config GroupByLinks True reverse order f sched = (xs, None)) \<and>
     (n < length xs \<and> f (take n xs) (xs ! n) = Some err \<and>
      (\<forall>i<n. f (take i xs) (xs ! i) = None) \<longrightarrow>
        ForeachComponents config GroupByLinks True reverse order f sched =
          (take (Suc n) xs, Some err))"
proof (intro impI conjI)
  assume h: "config = Inr components \<and> GroupByLinks components = Inr groups \<and>
    xs = concat (if reverse then rev groups else groups)"
  then have run: "ForeachComponents config GroupByLinks True reverse order f sched =
      dry_group f [] xs"
    by (simp add: ForeachComponents_def dry_groups_concat)
  {
    assume "\<forall>i<length xs. f (take i xs) (xs ! i) = None"
    then have "\<forall>r\<in>set (outcomes f [] xs). r = None" by (simp add: all_outcomes_None_iff)
    then have "dry_group f [] xs = ([] @ xs, None)" by (rule dry_group_all_ok)
    with run show "ForeachComponents config GroupByLinks True reverse order f sched = (xs, None)"
      by simp
  }
  {
    assume a: "n < length xs \<and> f (take n xs) (xs ! n) = Some err \<and>
      (\<forall>i<n. f (take i xs) (xs ! i) = None)"
    then have "outcomes f [] xs ! n = Some err" and "\<forall>i<n. outcomes f [] xs ! i = None"
      by (simp_all add: nth_outcomes)
    with a have "dry_group f [] xs = ([] @ take (Suc n) xs, Some err)"
      by (intro dry_group_first_failure) simp_all
    with run show "ForeachComponents config GroupByLinks True reverse order f sched =
        (take (Suc n) xs, Some err)"
      by simp
  }
qed


theorem dry_run_is_sequential_witness:
  "ForeachComponents (Inr [''A'', ''B'', ''C'']) (\<lambda>cs. Inr two_groups) True False False
     never_fails in_launch_order = ([''A'', ''B'', ''C''], None) \<and>
   ForeachComponents (Inr [''A'', ''B'', ''C'']) (\<lambda>cs. Inr two_groups) True False False
     (fails_on ''B'') in_launch_order = ([''A'', ''B''], Some ''failed'')"
proof -
  let ?xs = "[''A'', ''B'', ''C'']"
  have h: "(Inr ?xs :: string + string list) = Inr ?xs \<and>
      (\<lambda>cs. Inr two_groups :: string + string list list) ?xs = Inr two_groups \<and>
      ?xs = concat (if False then rev two_groups else two_groups)"
    by (simp add: two_groups_def)
  have ok: "\<forall>i<length ?xs. never_fails (take i ?xs) (?xs ! i) = None"
    by (simp add: never_fails_def)
  have bad: "1 < length ?xs \<and> fails_on ''B'' (take 1 ?xs) (?xs ! 1) = Some ''failed'' \<and>
      (\<forall>i<1. fails_on ''B'' (take i ?xs) (?xs ! i) = None)"
    by (simp add: fails_on_def)
  have take: "take (Suc 1) ?xs = [''A'', ''B'']" by simp
  note never = dry_run_is_sequential [where config = "Inr ?xs" and components = ?xs
      and GroupByLinks = "\<lambda>cs. Inr two_groups" and groups = two_groups and xs = ?xs
      and reverse = False and f = never_fails and order = False and sched = in_launch_order
      and n = 0 and err = "''failed''", THEN mp, OF h, THEN conjunct1, THEN mp, OF ok]
  note fails = dry_run_is_sequential [where config = "Inr ?xs" and components = ?xs
      and GroupByLinks = "\<lambda>cs. Inr two_groups" and groups = two_groups and xs = ?xs
      and reverse = False and f = "fails_on ''B''" and order = False and sched = in_launch_order
      and n = 1 and err = "''failed''", THEN mp, OF h, THEN conjunct2, THEN mp, OF bad]
  from never fails show ?thesis by (simp only: take)
qed


end
